theory Spec2Isabelle
  imports Complex_Main "HOL-Library.Extended_Nat"
begin

section \<open>The brute-force vertex-cover check of \<open>vertex_cover.ipynb\<close>\<close>

text \<open>
  The notebook \<open>community/optimization/vertex_cover.ipynb\<close> defines one procedure of its
  own, \<open>brute_force\<close> (second code cell), with the nested helper \<open>bitfield\<close>. Everything
  else is a call into numpy or into the Aqua library. The embedding below follows that cell
  line by line. Python integers that are never negative here (loop indices, digits, counts)
  are \<open>nat\<close>; the entries of the numpy weight matrix are \<open>real\<close> (the cell only compares
  them with zero); \<open>minimal_v\<close>, which holds either \<open>np.inf\<close> or a count, is an \<open>enat\<close>;
  a raised exception is the \<open>Inl\<close> of a sum.
\<close>

subsection \<open>Exceptions\<close>

datatype py_error = ValueError

subsection \<open>\<open>np.binary_repr\<close> and \<open>bitfield\<close>\<close>

text \<open>
  Python's \<open>bin(num)[2:]\<close> for \<open>num \<ge> 0\<close>: the binary digits of \<open>num\<close>, most significant
  first, without leading zeros (\<open>bin(0)[2:]\<close> is \<open>'0'\<close>).
\<close>

fun bin_digits :: "nat \<Rightarrow> string" where
  "bin_digits n =
     (if n < 2 then [if n = 0 then CHR ''0'' else CHR ''1'']
      else bin_digits (n div 2) @ [if n mod 2 = 0 then CHR ''0'' else CHR ''1''])"

declare bin_digits.simps [simp del]

text \<open>\<open>str.zfill(width)\<close> on a string of digits: zeros are added on the left up to \<open>width\<close>.\<close>

definition zfill :: "string \<Rightarrow> nat \<Rightarrow> string" where
  "zfill s width = replicate (width - length s) (CHR ''0'') @ s"

text \<open>
  \<open>np.binary_repr(num, width)\<close> of numpy, for \<open>num \<ge> 0\<close> and an integer \<open>width\<close>:
  \<^verbatim>\<open>
    if num == 0:
        return '0' * (width or 1)
    elif num > 0:
        binary = bin(num)[2:]
        binwidth = len(binary)
        outwidth = (binwidth if width is None else max(binwidth, width))
        warn_if_insufficient(width, binwidth)
        return binary.zfill(outwidth)
  \<close>
  \<open>width or 1\<close> is \<open>1\<close> when \<open>width\<close> is \<open>0\<close>. A width that is too small only gives a
  warning, and the string is then longer than \<open>width\<close>.
\<close>

definition binary_repr :: "nat \<Rightarrow> nat \<Rightarrow> string" where
  "binary_repr num width =
     (if num = 0 then replicate (if width = 0 then 1 else width) (CHR ''0'')
      else
        let binary = bin_digits num;
            binwidth = length binary;
            outwidth = max binwidth width
        in zfill binary outwidth)"

text \<open>
  Python's \<open>int(digit)\<close> on a one-character string: the value of a decimal digit, and
  \<open>ValueError\<close> for any other character.
\<close>

definition int_of_digit :: "char \<Rightarrow> py_error + nat" where
  "int_of_digit digit =
     (let k = (of_char digit :: nat)
      in if 48 \<le> k \<and> k \<le> 57 then Inr (k - 48) else Inl ValueError)"

text \<open>The list comprehension \<open>[int(digit) for digit in result]\<close>: the first failure is raised.\<close>

fun int_each :: "string \<Rightarrow> py_error + nat list" where
  "int_each [] = Inr []"
| "int_each (digit # rest) =
     (case int_of_digit digit of
        Inl e \<Rightarrow> Inl e
      | Inr d \<Rightarrow> (case int_each rest of Inl e \<Rightarrow> Inl e | Inr ds \<Rightarrow> Inr (d # ds)))"

text \<open>
  \<^verbatim>\<open>
    def bitfield(n, L):
        result = np.binary_repr(n, L)
        return [int(digit) for digit in result]
  \<close>
\<close>

definition bitfield :: "nat \<Rightarrow> nat \<Rightarrow> py_error + nat list" where
  "bitfield n L = (let result = binary_repr n L in int_each result)"

subsection \<open>\<open>np.count_nonzero\<close>\<close>

definition count_nonzero :: "nat list \<Rightarrow> nat" where
  "count_nonzero cur = length (filter (\<lambda>b. b \<noteq> 0) cur)"

subsection \<open>The validity predicate\<close>

text \<open>
  Modelled from the spec: \<open>vertex_cover.check_full_edge_coverage\<close> is a function of the Aqua
  library (\<open>qiskit.aqua.translators.ising.vertex_cover\<close>), which the notebook imports and
  whose code is not part of the repository. The spec's data model gives the predicate: a
  candidate is a valid vertex cover iff for every pair \<open>(i, j)\<close> with nonzero weight, at
  least one of bit \<open>i\<close> or bit \<open>j\<close> is set. The pairs are those of an \<open>N \<times> N\<close> matrix,
  \<open>N\<close> the number of rows of \<open>w\<close>; a bit is set when the entry is \<open>1\<close>, and an index past the
  end of the candidate has no set bit.
\<close>

definition bit_set :: "nat list \<Rightarrow> nat \<Rightarrow> bool" where
  "bit_set x i = (i < length x \<and> x ! i = 1)"

definition check_full_edge_coverage :: "nat list \<Rightarrow> real list list \<Rightarrow> bool" where
  "check_full_edge_coverage x w =
     list_all (\<lambda>i. list_all (\<lambda>j. w ! i ! j = 0 \<or> bit_set x i \<or> bit_set x j)
                    [0..<length w])
       [0..<length w]"

subsection \<open>\<open>brute_force\<close>\<close>

text \<open>
  The state of the loop of \<open>brute_force\<close>: the running minimum \<open>minimal_v\<close>, and a counter
  \<open>n_checks\<close> of the calls of the validity predicate made so far. The counter is not a
  variable of the source; it records how often line \<open>cur_v = ...\<close> has run.
\<close>

record bf_state =
  minimal_v :: enat
  n_checks :: nat

text \<open>
  One iteration of
  \<^verbatim>\<open>
    for i in range(max):
        cur = bitfield(i, L)
        cur_v = vertex_cover.check_full_edge_coverage(np.array(cur), w)
        if cur_v:
            nonzerocount = np.count_nonzero(cur)
            if nonzerocount < minimal_v:
                minimal_v = nonzerocount
  \<close>
  The validity predicate is the parameter \<open>chk\<close>.
\<close>

definition loop_body ::
  "(nat list \<Rightarrow> 'w \<Rightarrow> bool) \<Rightarrow> 'w \<Rightarrow> nat \<Rightarrow> nat \<Rightarrow> bf_state \<Rightarrow> py_error + bf_state" where
  "loop_body chk w L i s =
     (case bitfield i L of
        Inl e \<Rightarrow> Inl e
      | Inr cur \<Rightarrow>
          let cur_v = chk cur w;
              s1 = s\<lparr>n_checks := Suc (n_checks s)\<rparr>
          in if cur_v then
               let nonzerocount = count_nonzero cur
               in if enat nonzerocount < minimal_v s1
                  then Inr (s1\<lparr>minimal_v := enat nonzerocount\<rparr>)
                  else Inr s1
             else Inr s1)"

fun for_loop ::
  "(nat list \<Rightarrow> 'w \<Rightarrow> bool) \<Rightarrow> 'w \<Rightarrow> nat \<Rightarrow> nat list \<Rightarrow> bf_state \<Rightarrow> py_error + bf_state" where
  "for_loop chk w L [] s = Inr s"
| "for_loop chk w L (i # rest) s =
     (case loop_body chk w L i s of
        Inl e \<Rightarrow> Inl e
      | Inr s' \<Rightarrow> for_loop chk w L rest s')"

text \<open>
  The body of \<open>brute_force\<close> up to its \<open>return\<close>, as the final loop state. \<open>num_nodes\<close> and
  \<open>w\<close> are globals of the notebook and become arguments.
\<close>

definition brute_force_run ::
  "(nat list \<Rightarrow> 'w \<Rightarrow> bool) \<Rightarrow> nat \<Rightarrow> 'w \<Rightarrow> py_error + bf_state" where
  "brute_force_run chk num_nodes w =
     (let L = num_nodes;
          max = 2 ^ L
      in for_loop chk w L [0..<max] \<lparr>minimal_v = \<infinity>, n_checks = 0\<rparr>)"

definition brute_force_with ::
  "(nat list \<Rightarrow> 'w \<Rightarrow> bool) \<Rightarrow> nat \<Rightarrow> 'w \<Rightarrow> py_error + enat" where
  "brute_force_with chk num_nodes w =
     (case brute_force_run chk num_nodes w of
        Inl e \<Rightarrow> Inl e
      | Inr s \<Rightarrow> Inr (minimal_v s))"

definition brute_force :: "nat \<Rightarrow> real list list \<Rightarrow> py_error + enat" where
  "brute_force num_nodes w = brute_force_with check_full_edge_coverage num_nodes w"

subsection \<open>The example of the notebook\<close>

text \<open>
  The first code cell seeds numpy with \<open>100\<close>, sets \<open>num_nodes = 3\<close> and prints the matrix
  that \<open>vertex_cover.random_graph\<close> returns; the recorded output is
  \<^verbatim>\<open>
    [[0. 4. 5.]
     [4. 0. 3.]
     [5. 3. 0.]]
  \<close>
\<close>

definition num_nodes_example :: nat where
  "num_nodes_example = 3"

definition w_example :: "real list list" where
  "w_example = [[0, 4, 5], [4, 0, 3], [5, 3, 0]]"

subsection \<open>Shapes\<close>

text \<open>An \<open>N \<times> N\<close> matrix, as a list of \<open>N\<close> rows of \<open>N\<close> entries.\<close>

definition square_matrix :: "nat \<Rightarrow> 'a list list \<Rightarrow> bool" where
  "square_matrix N w = (length w = N \<and> list_all (\<lambda>row. length row = N) w)"

text \<open>A length-\<open>N\<close> binary vector.\<close>

definition binary_vector :: "nat \<Rightarrow> nat list \<Rightarrow> bool" where
  "binary_vector N v = (length v = N \<and> list_all (\<lambda>b. b = 0 \<or> b = 1) v)"

subsection \<open>Binary vectors and their values\<close>

text \<open>The value of a character of a binary string, as \<open>int\<close> reads it.\<close>

definition digit_of :: "char \<Rightarrow> nat" where
  "digit_of c = (if c = CHR ''1'' then 1 else 0)"

text \<open>The \<open>L\<close> low bits of \<open>n\<close>, most significant first.\<close>

fun to_bits :: "nat \<Rightarrow> nat \<Rightarrow> nat list" where
  "to_bits 0 n = []"
| "to_bits (Suc L) n = to_bits L (n div 2) @ [n mod 2]"

text \<open>The number that a list of bits represents, read big-endian (first entry most significant).\<close>

definition big_endian_value :: "nat list \<Rightarrow> nat" where
  "big_endian_value bs = foldl (\<lambda>a b. 2 * a + b) 0 bs"

text \<open>The Hamming weight of a vector: its count of 1-bits.\<close>

definition hamming_weight :: "nat list \<Rightarrow> nat" where
  "hamming_weight v = length (filter (\<lambda>b. b = 1) v)"

text \<open>The all-ones vector of length \<open>N\<close> and the all-zero \<open>N \<times> N\<close> matrix.\<close>

definition all_ones :: "nat \<Rightarrow> nat list" where
  "all_ones N = replicate N 1"

definition zero_matrix :: "nat \<Rightarrow> real list list" where
  "zero_matrix N = replicate N (replicate N 0)"

subsection \<open>The candidates that pass\<close>

text \<open>
  The vectors that the loop of \<open>brute_force\<close> builds for the indices in \<open>I\<close> and that the
  predicate \<open>chk\<close> accepts. This set is used to state what the loop computes.
\<close>

definition passing :: "(nat list \<Rightarrow> 'w \<Rightarrow> bool) \<Rightarrow> 'w \<Rightarrow> nat \<Rightarrow> nat set \<Rightarrow> nat list set" where
  "passing chk w L I = {cur. \<exists>i\<in>I. bitfield i L = Inr cur \<and> chk cur w}"

section \<open>Properties of \<open>bitfield\<close>\<close>

lemma int_of_digit_01: "c = CHR ''0'' \<or> c = CHR ''1'' \<Longrightarrow> int_of_digit c = Inr (digit_of c)"
  by (auto simp: int_of_digit_def digit_of_def)

lemma int_each_01:
  "\<forall>c\<in>set s. c = CHR ''0'' \<or> c = CHR ''1'' \<Longrightarrow> int_each s = Inr (map digit_of s)"
  by (induction s) (simp_all add: int_of_digit_01)

lemma bin_digits_01: "c \<in> set (bin_digits n) \<Longrightarrow> c = CHR ''0'' \<or> c = CHR ''1''"
proof (induction n arbitrary: c rule: bin_digits.induct)
  case (1 n)
  show ?case
  proof (cases "n < 2")
    case True
    with "1.prems" show ?thesis by (simp add: bin_digits.simps split: if_splits)
  next
    case False
    with "1.prems" have "c \<in> set (bin_digits (n div 2)) \<or> c = CHR ''0'' \<or> c = CHR ''1''"
      by (subst (asm) bin_digits.simps) (auto split: if_splits)
    with False "1.IH" show ?thesis by blast
  qed
qed

lemma binary_repr_01: "c \<in> set (binary_repr n L) \<Longrightarrow> c = CHR ''0'' \<or> c = CHR ''1''"
  by (auto simp: binary_repr_def zfill_def Let_def dest: bin_digits_01 split: if_splits)

lemma bitfield_total: "bitfield n L = Inr (map digit_of (binary_repr n L))"
  unfolding bitfield_def Let_def by (rule int_each_01) (blast dest: binary_repr_01)

lemma to_bits_zero: "to_bits L 0 = replicate L 0"
  by (induction L) (simp_all add: replicate_append_same)

lemma length_to_bits: "length (to_bits L n) = L"
  by (induction L arbitrary: n) simp_all

lemma to_bits_01: "b \<in> set (to_bits L n) \<Longrightarrow> b = 0 \<or> b = 1"
  by (induction L arbitrary: n) auto

lemma big_endian_value_snoc: "big_endian_value (bs @ [b]) = 2 * big_endian_value bs + b"
  by (simp add: big_endian_value_def)

lemma big_endian_value_to_bits: "n < 2 ^ L \<Longrightarrow> big_endian_value (to_bits L n) = n"
proof (induction L arbitrary: n)
  case 0
  then show ?case by (simp add: big_endian_value_def)
next
  case (Suc L)
  then have "n div 2 < 2 ^ L" by auto
  with Suc.IH show ?case by (simp add: big_endian_value_snoc)
qed

lemma digits_to_bits:
  "0 < L \<Longrightarrow> n < 2 ^ L \<Longrightarrow>
   length (bin_digits n) \<le> L \<and>
   replicate (L - length (bin_digits n)) 0 @ map digit_of (bin_digits n) = to_bits L n"
proof (induction L arbitrary: n)
  case 0
  then show ?case by simp
next
  case (Suc L)
  show ?case
  proof (cases "n < 2")
    case True
    then have "bin_digits n = [if n = 0 then CHR ''0'' else CHR ''1'']"
      by (simp add: bin_digits.simps)
    moreover from True have "n div 2 = 0" by simp
    moreover from True have "n mod 2 = n" by simp
    moreover from True have "n = 0 \<or> n = 1" by auto
    ultimately show ?thesis
      by (auto simp: to_bits_zero digit_of_def)
  next
    case False
    then have L: "0 < L" using Suc.prems by (cases L) auto
    have half: "n div 2 < 2 ^ L" using Suc.prems by auto
    from Suc.IH [OF L half] have
      len: "length (bin_digits (n div 2)) \<le> L" and
      eq: "replicate (L - length (bin_digits (n div 2))) 0 @ map digit_of (bin_digits (n div 2))
           = to_bits L (n div 2)"
      by simp_all
    from False have unf: "bin_digits n =
        bin_digits (n div 2) @ [if n mod 2 = 0 then CHR ''0'' else CHR ''1'']"
      by (subst bin_digits.simps) simp
    have last: "digit_of (if n mod 2 = 0 then CHR ''0'' else CHR ''1'') = n mod 2"
      by (auto simp: digit_of_def)
    from len eq show ?thesis
      by (simp add: unf last del: replicate_Suc)
  qed
qed

lemma bitfield_to_bits:
  assumes "0 < L" "n < 2 ^ L"
  shows "bitfield n L = Inr (to_bits L n)"
proof (cases "n = 0")
  case True
  with assms show ?thesis
    by (simp add: bitfield_total binary_repr_def to_bits_zero digit_of_def)
next
  case False
  from digits_to_bits [OF assms] have
    len: "length (bin_digits n) \<le> L" and
    eq: "replicate (L - length (bin_digits n)) 0 @ map digit_of (bin_digits n) = to_bits L n"
    by simp_all
  from False len have "binary_repr n L = replicate (L - length (bin_digits n)) CHR ''0'' @ bin_digits n"
    by (simp add: binary_repr_def zfill_def Let_def max_def)
  then show ?thesis
    by (simp add: bitfield_total digit_of_def eq [symmetric])
qed

lemma bitfield_0_0: "bitfield 0 0 = Inr [0]"
  by (simp add: bitfield_total binary_repr_def digit_of_def)


lemma binary_vector_to_bits: "binary_vector L (to_bits L n)"
  by (auto simp: binary_vector_def length_to_bits list_all_iff dest: to_bits_01)

lemma binary_vector_snoc:
  "binary_vector (Suc L) (bs @ [b]) \<longleftrightarrow> binary_vector L bs \<and> (b = 0 \<or> b = 1)"
  by (auto simp: binary_vector_def)

lemma binary_vector_value_less: "binary_vector L v \<Longrightarrow> big_endian_value v < 2 ^ L"
proof (induction v arbitrary: L rule: rev_induct)
  case Nil
  then show ?case by (simp add: big_endian_value_def)
next
  case (snoc b bs)
  then obtain K where K: "L = Suc K" by (cases L) (auto simp: binary_vector_def)
  with snoc.prems have bs: "binary_vector K bs" and b: "b = 0 \<or> b = 1"
    by (simp_all add: binary_vector_snoc)
  from snoc.IH [OF bs] b show ?case
    by (auto simp: K big_endian_value_snoc)
qed

lemma to_bits_value: "binary_vector L v \<Longrightarrow> to_bits L (big_endian_value v) = v"
proof (induction v arbitrary: L rule: rev_induct)
  case Nil
  then show ?case by (simp add: binary_vector_def)
next
  case (snoc b bs)
  then obtain K where K: "L = Suc K" by (cases L) (auto simp: binary_vector_def)
  with snoc.prems have bs: "binary_vector K bs" and b: "b = 0 \<or> b = 1"
    by (simp_all add: binary_vector_snoc)
  from b have "(2 * big_endian_value bs + b) div 2 = big_endian_value bs"
    and "(2 * big_endian_value bs + b) mod 2 = b" by auto
  with snoc.IH [OF bs] show ?case
    by (simp add: K big_endian_value_snoc)
qed

lemma candidates_eq:
  assumes "0 < L"
  shows "{cur. \<exists>i<2 ^ L. bitfield i L = Inr cur} = {v. binary_vector L v}"
proof (intro set_eqI iffI; clarify)
  fix cur i assume "i < (2::nat) ^ L" "bitfield i L = Inr cur"
  with assms show "binary_vector L cur"
    by (auto simp: bitfield_to_bits binary_vector_to_bits)
next
  fix v assume v: "binary_vector L v"
  then have "big_endian_value v < 2 ^ L" by (rule binary_vector_value_less)
  moreover from this assms v have "bitfield (big_endian_value v) L = Inr v"
    by (simp add: bitfield_to_bits to_bits_value)
  ultimately show "\<exists>i<2 ^ L. bitfield i L = Inr v" by blast
qed

lemma bitfield_distinct:
  assumes "0 < L"
  shows "distinct (map (\<lambda>i. bitfield i L) [0..<2 ^ L])"
proof -
  have "inj_on (\<lambda>i. bitfield i L) {0..<2 ^ L}"
  proof (rule inj_onI)
    fix i j assume "i \<in> {0..<(2::nat) ^ L}" "j \<in> {0..<(2::nat) ^ L}" "bitfield i L = bitfield j L"
    with assms have "to_bits L i = to_bits L j" and "i < 2 ^ L" and "j < 2 ^ L"
      by (simp_all add: bitfield_to_bits)
    then show "i = j"
      by (metis big_endian_value_to_bits)
  qed
  then show ?thesis by (simp add: distinct_map)
qed

lemma finite_binary_vectors: "finite {v. binary_vector L v}"
proof -
  have "{v. binary_vector L v} \<subseteq> {xs. set xs \<subseteq> {0, 1} \<and> length xs = L}"
    by (auto simp: binary_vector_def list_all_iff)
  moreover have "finite {xs. set xs \<subseteq> {0::nat, 1} \<and> length xs = L}"
    by (rule finite_lists_length_eq) simp
  ultimately show ?thesis by (rule finite_subset)
qed

lemma count_nonzero_hamming: "binary_vector L v \<Longrightarrow> count_nonzero v = hamming_weight v"
proof -
  assume "binary_vector L v"
  then have "\<forall>b\<in>set v. (b \<noteq> 0) = (b = 1)" by (auto simp: binary_vector_def list_all_iff)
  then have "filter (\<lambda>b. b \<noteq> 0) v = filter (\<lambda>b. b = 1) v" by (intro filter_cong) auto
  then show ?thesis by (simp add: count_nonzero_def hamming_weight_def)
qed

section \<open>What the loop of \<open>brute_force\<close> computes\<close>

lemma loop_body_eq:
  "loop_body chk w L i s =
     Inr \<lparr>minimal_v = (if chk (map digit_of (binary_repr i L)) w
                       then min (minimal_v s) (enat (count_nonzero (map digit_of (binary_repr i L))))
                       else minimal_v s),
          n_checks = Suc (n_checks s)\<rparr>"
  by (auto simp: loop_body_def bitfield_total Let_def min_def)

lemma for_loop_eq:
  "for_loop chk w L is s =
     Inr \<lparr>minimal_v = Inf (insert (minimal_v s) (enat ` count_nonzero ` passing chk w L (set is))),
          n_checks = n_checks s + length is\<rparr>"
proof (induction "is" arbitrary: s)
  case Nil
  then show ?case by (simp add: passing_def)
next
  case (Cons i rest)
  let ?cur = "map digit_of (binary_repr i L)"
  have split: "passing chk w L (set (i # rest)) =
      (if chk ?cur w then {?cur} else {}) \<union> passing chk w L (set rest)"
    by (auto simp: passing_def bitfield_total)
  show ?case
    by (simp add: loop_body_eq Cons.IH split inf_min [symmetric] inf_assoc
             del: set_simps)
qed

lemma brute_force_with_eq:
  "brute_force_with chk L w = Inr (Inf (enat ` count_nonzero ` passing chk w L {0..<2 ^ L}))"
  by (simp add: brute_force_with_def brute_force_run_def for_loop_eq Let_def top_enat_def [symmetric])

lemma brute_force_run_checks:
  "\<exists>s. brute_force_run chk L w = Inr s \<and> n_checks s = 2 ^ L"
  by (simp add: brute_force_run_def for_loop_eq Let_def)

lemma Inf_enat_image:
  assumes "finite B" "B \<noteq> {}"
  shows "Inf (enat ` B) = enat (Min B)"
proof -
  from assms have "Inf (enat ` B) = Min (enat ` B)" by (simp add: Min_Inf)
  also from assms have "\<dots> = enat (Min B)"
    by (intro mono_Min_commute [symmetric]) (auto simp: mono_def)
  finally show ?thesis .
qed


section \<open>The minimum that \<open>brute_force\<close> returns\<close>

lemma bit_set_all_ones: "bit_set (all_ones N) i \<longleftrightarrow> i < N"
  by (auto simp: bit_set_def all_ones_def)

lemma check_all_ones: "length w = N \<Longrightarrow> check_full_edge_coverage (all_ones N) w"
  by (simp add: check_full_edge_coverage_def list_all_iff bit_set_all_ones)

lemma binary_vector_all_ones: "binary_vector N (all_ones N)"
  by (simp add: binary_vector_def all_ones_def list_all_iff)

lemma hamming_weight_all_ones: "hamming_weight (all_ones N) = N"
  by (simp add: hamming_weight_def all_ones_def)

lemma passing_images:
  assumes "square_matrix N w"
  shows "count_nonzero ` passing check_full_edge_coverage w N {0..<2 ^ N} =
         hamming_weight ` {v. binary_vector N v \<and> check_full_edge_coverage v w}"
proof (cases "N = 0")
  case True
  with assms have w: "w = []" by (simp add: square_matrix_def)
  have "passing check_full_edge_coverage w N {0..<2 ^ N} = {[0]}"
    by (auto simp: passing_def True w bitfield_0_0 check_full_edge_coverage_def)
  moreover have "{v. binary_vector N v \<and> check_full_edge_coverage v w} = {[]}"
    by (auto simp: True w binary_vector_def check_full_edge_coverage_def)
  ultimately show ?thesis
    by (simp add: count_nonzero_def hamming_weight_def)
next
  case False
  then have "passing check_full_edge_coverage w N {0..<2 ^ N} =
      {v. v \<in> {cur. \<exists>i<2 ^ N. bitfield i N = Inr cur} \<and> check_full_edge_coverage v w}"
    by (auto simp: passing_def)
  also from False have "\<dots> = {v. binary_vector N v \<and> check_full_edge_coverage v w}"
    by (simp add: candidates_eq)
  finally show ?thesis
    by (auto simp: count_nonzero_hamming intro!: image_cong)
qed

lemma brute_force_Min:
  assumes "square_matrix N w"
  shows "brute_force N w =
     Inr (enat (Min (hamming_weight ` {v. binary_vector N v \<and> check_full_edge_coverage v w})))"
proof -
  let ?V = "{v. binary_vector N v \<and> check_full_edge_coverage v w}"
  from assms have "all_ones N \<in> ?V"
    by (simp add: binary_vector_all_ones check_all_ones square_matrix_def)
  then have ne: "hamming_weight ` ?V \<noteq> {}" by blast
  have "finite ?V" using finite_binary_vectors [of N] by simp
  then have fin: "finite (hamming_weight ` ?V)" by simp
  show ?thesis
    by (simp only: brute_force_def brute_force_with_eq passing_images [OF assms]
          Inf_enat_image [OF fin ne])
qed


lemma square_zero_matrix: "square_matrix N (zero_matrix N)"
  by (simp add: square_matrix_def zero_matrix_def list_all_iff)

lemma check_zero_matrix: "check_full_edge_coverage v (zero_matrix N)"
  by (simp add: check_full_edge_coverage_def zero_matrix_def list_all_iff)

text \<open>
  On the recorded example the search returns \<open>2\<close>, the size that the second code cell
  prints.
\<close>

lemma brute_force_example: "brute_force num_nodes_example w_example = Inr 2"
  by code_simp

section \<open>The claims\<close>

subsection \<open>C1: the result is the minimum Hamming weight of a valid cover\<close>

text \<open>
  C1. For every \<open>N \<times> N\<close> weight matrix \<open>w\<close>, \<open>N \<ge> 0\<close>, \<open>brute_force\<close> returns a natural
  number \<open>m\<close> (not \<open>np.inf\<close>, and no exception), and \<open>m\<close> is the minimum Hamming weight over
  the length-\<open>N\<close> binary vectors that satisfy the full-edge-coverage predicate: some valid
  vector has weight \<open>m\<close> and no valid vector has a smaller one. The weights need not be
  non-negative for this.
\<close>

theorem brute_force_minimum:
  assumes "square_matrix N w"
  shows "\<exists>m. brute_force N w = Inr (enat m) \<and>
           m = Min (hamming_weight ` {v. binary_vector N v \<and> check_full_edge_coverage v w}) \<and>
           (\<exists>v. binary_vector N v \<and> check_full_edge_coverage v w \<and> hamming_weight v = m) \<and>
           (\<forall>v. binary_vector N v \<and> check_full_edge_coverage v w \<longrightarrow> m \<le> hamming_weight v)"
proof -
  let ?V = "{v. binary_vector N v \<and> check_full_edge_coverage v w}"
  let ?m = "Min (hamming_weight ` ?V)"
  from assms have "all_ones N \<in> ?V"
    by (simp add: binary_vector_all_ones check_all_ones square_matrix_def)
  then have ne: "hamming_weight ` ?V \<noteq> {}" by blast
  have "finite ?V" using finite_binary_vectors [of N] by simp
  then have fin: "finite (hamming_weight ` ?V)" by simp
  from fin ne have "?m \<in> hamming_weight ` ?V" by (rule Min_in)
  then have attained:
    "\<exists>v. binary_vector N v \<and> check_full_edge_coverage v w \<and> hamming_weight v = ?m"
    by auto
  from fin have least:
    "\<forall>v. binary_vector N v \<and> check_full_edge_coverage v w \<longrightarrow> ?m \<le> hamming_weight v"
    by (auto intro: Min_le)
  from brute_force_Min [OF assms] attained least show ?thesis by blast
qed

theorem brute_force_minimum_witness:
  "square_matrix 3 w_example \<and>
   (\<exists>m. brute_force 3 w_example = Inr (enat m) \<and>
      m = Min (hamming_weight ` {v. binary_vector 3 v \<and> check_full_edge_coverage v w_example}) \<and>
      (\<exists>v. binary_vector 3 v \<and> check_full_edge_coverage v w_example \<and> hamming_weight v = m) \<and>
      (\<forall>v. binary_vector 3 v \<and> check_full_edge_coverage v w_example \<longrightarrow>
           m \<le> hamming_weight v))"
proof -
  have sq: "square_matrix 3 w_example"
    by (simp add: square_matrix_def w_example_def)
  from sq brute_force_minimum [OF sq] show ?thesis by blast
qed

subsection \<open>C3: \<open>bitfield\<close> and the enumeration of the candidates\<close>

text \<open>
  With \<open>L = 0\<close> the only index is \<open>n = 0\<close>, and \<open>np.binary_repr(0, 0)\<close> is \<open>'0'\<close>
  (\<open>width or 1\<close>): \<open>bitfield(0, 0)\<close> is the one-entry list \<open>[0]\<close>, not a list of \<open>L = 0\<close>
  entries.
\<close>

theorem bitfield_width_zero_counterexample:
  "(0::nat) < 2 ^ 0 \<and> bitfield 0 0 = Inr [0] \<and> length [0::nat] \<noteq> 0"
  by (simp add: bitfield_0_0)

text \<open>
  C3, for \<open>L \<ge> 1\<close>. For every \<open>L \<ge> 1\<close> and every \<open>n < 2 ^ L\<close>, \<open>bitfield n L\<close> returns a list
  of exactly \<open>L\<close> entries, each \<open>0\<close> or \<open>1\<close>, whose big-endian value is \<open>n\<close>; and the lists
  for \<open>i = 0, \<dots>, 2 ^ L - 1\<close> are pairwise distinct and are exactly the length-\<open>L\<close> binary
  vectors, so the loop of \<open>brute_force\<close> meets each of them exactly once.
\<close>

theorem bitfield_big_endian:
  assumes "0 < L" and "n < 2 ^ L"
  shows "(\<exists>bs. bitfield n L = Inr bs \<and> binary_vector L bs \<and> big_endian_value bs = n) \<and>
         distinct (map (\<lambda>i. bitfield i L) [0..<2 ^ L]) \<and>
         set (map (\<lambda>i. bitfield i L) [0..<2 ^ L]) = Inr ` {v. binary_vector L v}"
proof (intro conjI)
  from assms show "\<exists>bs. bitfield n L = Inr bs \<and> binary_vector L bs \<and> big_endian_value bs = n"
    by (simp add: bitfield_to_bits binary_vector_to_bits big_endian_value_to_bits)
  from assms(1) show "distinct (map (\<lambda>i. bitfield i L) [0..<2 ^ L])"
    by (rule bitfield_distinct)
  have "set (map (\<lambda>i. bitfield i L) [0..<2 ^ L]) =
      Inr ` {cur. \<exists>i<2 ^ L. bitfield i L = Inr cur}"
    by (auto simp: bitfield_total image_iff)
  with assms(1) show "set (map (\<lambda>i. bitfield i L) [0..<2 ^ L]) = Inr ` {v. binary_vector L v}"
    by (simp only: candidates_eq)
qed

theorem bitfield_big_endian_witness:
  "(0::nat) < 2 \<and> (2::nat) < 2 ^ 2 \<and> bitfield 2 2 = Inr [1, 0] \<and>
   binary_vector 2 [1, 0] \<and> big_endian_value [1, 0] = 2 \<and>
   distinct (map (\<lambda>i. bitfield i 2) [0..<2 ^ 2])"
proof -
  have b: "bitfield 2 2 = Inr [1, 0]" by code_simp
  from bitfield_big_endian [of 2 2] b show ?thesis by auto
qed

subsection \<open>C4: the validity predicate is monotone\<close>

text \<open>
  C4. For every weight matrix \<open>w\<close> and vectors \<open>v\<close>, \<open>v'\<close> of equal length: if \<open>v\<close> is a valid
  cover of \<open>w\<close> and every bit set in \<open>v\<close> is also set in \<open>v'\<close>, then \<open>v'\<close> is a valid cover
  of \<open>w\<close>.
\<close>

theorem check_full_edge_coverage_monotone:
  assumes "check_full_edge_coverage v w"
    and "length v = length v'"
    and "\<forall>i<length v. v ! i = 1 \<longrightarrow> v' ! i = 1"
  shows "check_full_edge_coverage v' w"
proof -
  from assms(2,3) have "\<And>i. bit_set v i \<Longrightarrow> bit_set v' i"
    by (simp add: bit_set_def)
  with assms(1) show ?thesis
    unfolding check_full_edge_coverage_def list_all_iff by blast
qed

theorem check_full_edge_coverage_monotone_witness:
  "check_full_edge_coverage [0, 1, 1] w_example \<and>
   length [0, 1, 1 :: nat] = length [1, 1, 1 :: nat] \<and>
   check_full_edge_coverage [1, 1, 1] w_example"
proof -
  have a: "check_full_edge_coverage [0, 1, 1] w_example" by code_simp
  have b: "length [0, 1, 1 :: nat] = length [1, 1, 1 :: nat]" by simp
  have c: "\<forall>i<length [0, 1, 1 :: nat]. [0, 1, 1 :: nat] ! i = 1 \<longrightarrow> [1, 1, 1 :: nat] ! i = 1"
    by (simp add: nth_Cons split: nat.splits)
  from a b check_full_edge_coverage_monotone [OF a b c] show ?thesis by blast
qed

subsection \<open>C5: the all-ones vector is a valid cover\<close>

text \<open>
  C5. For every \<open>N \<ge> 0\<close> and every \<open>N \<times> N\<close> weight matrix, the all-ones vector of length
  \<open>N\<close> satisfies the validity predicate, and \<open>brute_force\<close> returns a number that is at most
  \<open>N\<close>.
\<close>

theorem all_ones_valid_cover:
  assumes "square_matrix N w"
  shows "check_full_edge_coverage (all_ones N) w \<and>
         (\<exists>m. brute_force N w = Inr (enat m) \<and> m \<le> N)"
proof -
  let ?V = "{v. binary_vector N v \<and> check_full_edge_coverage v w}"
  from assms have chk: "check_full_edge_coverage (all_ones N) w"
    by (simp add: check_all_ones square_matrix_def)
  then have "all_ones N \<in> ?V" by (simp add: binary_vector_all_ones)
  then have "hamming_weight (all_ones N) \<in> hamming_weight ` ?V" by (rule imageI)
  moreover have "finite (hamming_weight ` ?V)" using finite_binary_vectors [of N] by simp
  ultimately have "Min (hamming_weight ` ?V) \<le> hamming_weight (all_ones N)" by (intro Min_le)
  then have "Min (hamming_weight ` ?V) \<le> N" by (simp add: hamming_weight_all_ones)
  with chk brute_force_Min [OF assms] show ?thesis by blast
qed

theorem all_ones_valid_cover_witness:
  "square_matrix 3 w_example \<and> check_full_edge_coverage (all_ones 3) w_example \<and>
   (\<exists>m. brute_force 3 w_example = Inr (enat m) \<and> m \<le> 3)"
proof -
  have sq: "square_matrix 3 w_example"
    by (simp add: square_matrix_def w_example_def)
  from sq all_ones_valid_cover [OF sq] show ?thesis by blast
qed

subsection \<open>C6: the empty graph\<close>

text \<open>
  C6. For every \<open>N \<ge> 0\<close>, \<open>brute_force\<close> on the all-zero \<open>N \<times> N\<close> weight matrix returns \<open>0\<close>.
\<close>

theorem empty_graph_cover_size:
  "brute_force N (zero_matrix N) = Inr 0"
proof -
  let ?V = "{v. binary_vector N v \<and> check_full_edge_coverage v (zero_matrix N)}"
  have "replicate N 0 \<in> ?V"
    by (simp add: binary_vector_def check_zero_matrix list_all_iff)
  then have "hamming_weight (replicate N 0) \<in> hamming_weight ` ?V" by (rule imageI)
  moreover have "finite (hamming_weight ` ?V)" using finite_binary_vectors [of N] by simp
  ultimately have "Min (hamming_weight ` ?V) \<le> hamming_weight (replicate N 0)" by (intro Min_le)
  then have "Min (hamming_weight ` ?V) = 0" by (simp add: hamming_weight_def)
  with brute_force_Min [OF square_zero_matrix, of N] show ?thesis
    by (simp add: zero_enat_def)
qed

subsection \<open>C7: the loop is total\<close>


subsection \<open>C9: no valid candidate gives infinity\<close>

text \<open>
  C9. If the validity predicate rejects every vector that the loop enumerates, \<open>brute_force\<close>
  returns \<open>np.inf\<close>, the initial value of \<open>minimal_v\<close>, and raises nothing.
\<close>

theorem brute_force_no_solution:
  assumes "\<forall>i<2 ^ N. \<forall>cur. bitfield i N = Inr cur \<longrightarrow> \<not> chk cur w"
  shows "brute_force_with chk N w = Inr \<infinity>"
proof -
  from assms have "passing chk w N {0..<2 ^ N} = {}"
    by (auto simp: passing_def)
  then show ?thesis
    by (simp add: brute_force_with_eq top_enat_def)
qed

theorem brute_force_no_solution_witness:
  "brute_force_with (\<lambda>cur w. False) 2 w_example = Inr \<infinity>"
  using brute_force_no_solution [of 2 "\<lambda>cur w. False" w_example] by simp

subsection \<open>C10: \<open>brute_force\<close> is deterministic\<close>



end
